theory Spec2Isabelle
  imports Main
begin

section \<open>Strings\<close>

text \<open>
  A Python \<open>str\<close> is modelled as a \<^typ>\<open>string\<close>: one \<^typ>\<open>char\<close> per character, read
  as the code point \<open>ord c\<close> in the range 0..255. Code points above 255 are outside the
  model. Bytes written to disk are lists of \<^typ>\<open>char\<close> as well.
\<close>

type_synonym bytes = "char list"

definition ord :: "char \<Rightarrow> nat" where
  "ord c = of_char c"

definition in_range :: "char \<Rightarrow> char \<Rightarrow> char \<Rightarrow> bool" where
  "in_range lo hi c \<longleftrightarrow> ord lo \<le> ord c \<and> ord c \<le> ord hi"

definition is_ascii_alpha :: "char \<Rightarrow> bool" where
  \<comment> \<open>\<open>c.isascii() and c.isalpha()\<close>\<close>
  "is_ascii_alpha c \<longleftrightarrow> in_range (CHR ''a'') (CHR ''z'') c \<or> in_range (CHR ''A'') (CHR ''Z'') c"

definition is_digit :: "char \<Rightarrow> bool" where
  "is_digit c \<longleftrightarrow> in_range (CHR ''0'') (CHR ''9'') c"

definition lower_char :: "char \<Rightarrow> char" where
  \<comment> \<open>\<open>str.lower\<close> on one character of the range 0..255: \<open>A\<close>..\<open>Z\<close> and the
      capital letters 0xC0..0xDE of Latin-1 (without the sign 0xD7) move up by 32.\<close>
  "lower_char c =
     (if in_range (CHR ''A'') (CHR ''Z'') c \<or> (192 \<le> ord c \<and> ord c \<le> 222 \<and> ord c \<noteq> 215)
      then char_of (ord c + 32) else c)"

definition lower :: "string \<Rightarrow> string" where
  "lower s = map lower_char s"

definition str_find :: "char \<Rightarrow> string \<Rightarrow> int" where
  \<comment> \<open>\<open>s.find(c)\<close>: the lowest index of \<open>c\<close>, or -1\<close>
  "str_find c s = (if c \<in> set s then int (length (takeWhile (\<lambda>x. x \<noteq> c) s)) else - 1)"

definition str_rfind :: "char \<Rightarrow> string \<Rightarrow> int" where
  \<comment> \<open>\<open>s.rfind(c)\<close>: the highest index of \<open>c\<close>, or -1\<close>
  "str_rfind c s =
     (if c \<in> set s then int (length s) - 1 - int (length (takeWhile (\<lambda>x. x \<noteq> c) (rev s)))
      else - 1)"

definition norm_index :: "string \<Rightarrow> int \<Rightarrow> nat" where
  \<comment> \<open>how Python reads a slice bound: a negative bound counts from the end, and
      every bound is cut to the range \<open>0..len(s)\<close>\<close>
  "norm_index s i =
     (if i < 0 then nat (max 0 (int (length s) + i)) else min (length s) (nat i))"

definition slice :: "string \<Rightarrow> int \<Rightarrow> int \<Rightarrow> string" where
  \<comment> \<open>\<open>s[i:j]\<close>\<close>
  "slice s i j = take (norm_index s j - norm_index s i) (drop (norm_index s i) s)"

definition slice_to :: "string \<Rightarrow> int \<Rightarrow> string" where
  \<comment> \<open>\<open>s[:j]\<close>\<close>
  "slice_to s j = take (norm_index s j) s"

definition slice_from :: "string \<Rightarrow> int \<Rightarrow> string" where
  \<comment> \<open>\<open>s[i:]\<close>\<close>
  "slice_from s i = drop (norm_index s i) s"

definition find_from :: "char \<Rightarrow> string \<Rightarrow> int \<Rightarrow> int" where
  \<comment> \<open>\<open>s.find(c, start)\<close>\<close>
  "find_from c s start =
     (let st = norm_index s start; r = str_find c (drop st s)
      in if r < 0 then - 1 else int st + r)"

definition split_once :: "char \<Rightarrow> string \<Rightarrow> string \<times> string" where
  \<comment> \<open>\<open>s.split(c, 1)\<close> for a string that holds \<open>c\<close>: the text before the first
      \<open>c\<close> and the text after it\<close>
  "split_once c s = (takeWhile (\<lambda>x. x \<noteq> c) s, drop 1 (dropWhile (\<lambda>x. x \<noteq> c) s))"

section \<open>The filename sanitizer\<close>

text \<open>
  \<^verbatim>\<open>re.sub(r'[^a-zA-Z0-9\-_.]', '_', filename)\<close>: the pattern is a negated class of one
  character, so every character outside the class is replaced on its own.
\<close>

definition safe_char :: "char \<Rightarrow> bool" where
  "safe_char c \<longleftrightarrow>
     in_range (CHR ''a'') (CHR ''z'') c \<or> in_range (CHR ''A'') (CHR ''Z'') c \<or>
     in_range (CHR ''0'') (CHR ''9'') c \<or> c = CHR ''-'' \<or> c = CHR ''_'' \<or> c = CHR ''.''"

definition sanitize_filename :: "string \<Rightarrow> string" where
  "sanitize_filename filename = map (\<lambda>c. if safe_char c then c else CHR ''_'') filename"

section \<open>The URL parser of the standard library\<close>

text \<open>
  \<open>get_extension_from_url\<close> calls \<open>urllib.parse.urlparse\<close> and \<open>os.path.splitext\<close>.
  Both are modelled after the library's code (CPython 3.11, \<open>Lib/urllib/parse.py\<close>,
  \<open>Lib/posixpath.py\<close> and \<open>Lib/genericpath.py\<close>), with the names of its functions.
  \<open>urlsplit\<close> raises \<open>ValueError\<close> on a network location with unbalanced or ill-filled
  brackets; the exception is the value \<open>Inl ValueError\<close>. (\<open>OSError\<close> is raised further
  down, by the file system.)

  Whether the text between the brackets is an IPv6 address is decided in the library by
  the module \<open>ipaddress\<close>, which is not modelled: its verdict is the parameter \<open>ip6\<close>.
  The library's last check, \<open>_checknetloc\<close>, looks for characters whose NFKC form holds
  one of \<open>/?#@:\<close>; no character of the range 0..255 has such a form, so the check never
  raises here and is left out.
\<close>

datatype exn = ValueError | OSError

definition c0_control_or_space :: "char \<Rightarrow> bool" where
  "c0_control_or_space c \<longleftrightarrow> ord c \<le> 32"

definition unsafe_url_byte :: "char \<Rightarrow> bool" where
  \<comment> \<open>tab, carriage return, line feed\<close>
  "unsafe_url_byte c \<longleftrightarrow> ord c = 9 \<or> ord c = 13 \<or> ord c = 10"

definition scheme_char :: "char \<Rightarrow> bool" where
  "scheme_char c \<longleftrightarrow>
     is_ascii_alpha c \<or> is_digit c \<or> c = CHR ''+'' \<or> c = CHR ''-'' \<or> c = CHR ''.''"

definition is_hex :: "char \<Rightarrow> bool" where
  "is_hex c \<longleftrightarrow>
     in_range (CHR ''a'') (CHR ''f'') c \<or> in_range (CHR ''A'') (CHR ''F'') c \<or> is_digit c"

definition uses_params :: "string list" where
  "uses_params = ['''', ''ftp'', ''hdl'', ''prospero'', ''http'', ''imap'',
                  ''https'', ''shttp'', ''rtsp'', ''rtsps'', ''rtspu'', ''sip'',
                  ''sips'', ''mms'', ''sftp'', ''tel'']"

definition splitnetloc :: "string \<Rightarrow> int \<Rightarrow> string \<times> string" where
  "splitnetloc url start =
     (let delim = fold (\<lambda>c delim. let wdelim = find_from c url start
                                    in if wdelim \<ge> 0 then min delim wdelim else delim)
                       ''/?#'' (int (length url))
      in (slice url start delim, slice_from url delim))"

definition bracketed_host :: "string \<Rightarrow> string" where
  \<comment> \<open>\<open>netloc.partition('[')[2].partition(']')[0]\<close>\<close>
  "bracketed_host netloc =
     takeWhile (\<lambda>x. x \<noteq> CHR '']'') (drop 1 (dropWhile (\<lambda>x. x \<noteq> CHR ''['') netloc))"

definition check_bracketed_host :: "(string \<Rightarrow> bool) \<Rightarrow> string \<Rightarrow> bool" where
  \<comment> \<open>True when \<open>_check_bracketed_host\<close> returns, False when it raises. A host that
      starts with \<open>v\<close> has to match \<open>v[a-fA-F0-9]+\..+\<close>; any other host has to be an
      IPv6 address.\<close>
  "check_bracketed_host ip6 hostname =
     (if take 1 hostname = ''v''
      then (let r = drop 1 hostname; digits = takeWhile is_hex r; rest = dropWhile is_hex r
            in digits \<noteq> [] \<and> take 1 rest = ''.'' \<and> drop 1 rest \<noteq> [])
      else ip6 hostname)"

definition split_query_fragment ::
  "string \<Rightarrow> string \<Rightarrow> string \<Rightarrow> string \<times> string \<times> string \<times> string \<times> string" where
  \<comment> \<open>the end of \<open>urlsplit\<close>: the fragment is cut off at the first \<open>#\<close>, then the
      query at the first \<open>?\<close>\<close>
  "split_query_fragment scheme netloc url =
     (let (url1, fragment) =
            (if CHR ''#'' \<in> set url then split_once (CHR ''#'') url else (url, ''''));
          (url2, query) =
            (if CHR ''?'' \<in> set url1 then split_once (CHR ''?'') url1 else (url1, ''''))
      in (scheme, netloc, url2, query, fragment))"

definition urlsplit ::
  "(string \<Rightarrow> bool) \<Rightarrow> string \<Rightarrow> exn + (string \<times> string \<times> string \<times> string \<times> string)" where
  "urlsplit ip6 url0 =
     (let url1 = dropWhile c0_control_or_space url0;
          url2 = filter (\<lambda>c. \<not> unsafe_url_byte c) url1;
          i = str_find (CHR '':'') url2;
          (scheme, url3) =
            (if i > 0 \<and> is_ascii_alpha (url2 ! 0) \<and> list_all scheme_char (slice_to url2 i)
             then (lower (slice_to url2 i), slice_from url2 (i + 1))
             else ('''', url2))
      in if slice_to url3 2 = ''//''
         then (let (netloc, url4) = splitnetloc url3 2
               in if (CHR ''['' \<in> set netloc \<and> CHR '']'' \<notin> set netloc) \<or>
                     (CHR '']'' \<in> set netloc \<and> CHR ''['' \<notin> set netloc)
                  then Inl ValueError
                  else if CHR ''['' \<in> set netloc \<and> CHR '']'' \<in> set netloc \<and>
                          \<not> check_bracketed_host ip6 (bracketed_host netloc)
                  then Inl ValueError
                  else Inr (split_query_fragment scheme netloc url4))
         else Inr (split_query_fragment scheme '''' url3))"

definition splitparams :: "string \<Rightarrow> string \<times> string" where
  "splitparams url =
     (if CHR ''/'' \<in> set url
      then (let i = find_from (CHR '';'') url (str_rfind (CHR ''/'') url)
            in if i < 0 then (url, '''') else (slice_to url i, slice_from url (i + 1)))
      else (let i = str_find (CHR '';'') url
            in (slice_to url i, slice_from url (i + 1))))"

record parse_result =
  scheme :: string
  netloc :: string
  path :: string
  params :: string
  query :: string
  fragment :: string

definition urlparse :: "(string \<Rightarrow> bool) \<Rightarrow> string \<Rightarrow> exn + parse_result" where
  "urlparse ip6 url =
     (case urlsplit ip6 url of
        Inl e \<Rightarrow> Inl e
      | Inr (scheme', netloc', url1, query', fragment') \<Rightarrow>
          (let (url2, params') =
                 (if scheme' \<in> set uses_params \<and> CHR '';'' \<in> set url1
                  then splitparams url1 else (url1, ''''))
           in Inr \<lparr>scheme = scheme', netloc = netloc', path = url2, params = params',
                   query = query', fragment = fragment'\<rparr>))"

section \<open>Splitting off the extension\<close>

text \<open>
  \<open>os.path.splitext\<close> on a POSIX system: \<open>genericpath._splitext(p, '/', None, '.')\<close>.
  Its loop walks from the start of the last path segment to the last dot and returns the
  split at the first character that is not a dot; when only dots come before the last dot,
  the path has no extension.
\<close>

function splitext_scan :: "string \<Rightarrow> int \<Rightarrow> int \<Rightarrow> bool" where
  "splitext_scan p filenameIndex dotIndex =
     (if filenameIndex < dotIndex
      then (if slice p filenameIndex (filenameIndex + 1) \<noteq> ''.'' then True
            else splitext_scan p (filenameIndex + 1) dotIndex)
      else False)"
  by pat_completeness auto
termination
  by (relation "measure (\<lambda>(p, filenameIndex, dotIndex). nat (dotIndex - filenameIndex))") auto

declare splitext_scan.simps [simp del]

definition splitext :: "string \<Rightarrow> string \<times> string" where
  "splitext p =
     (let sepIndex = str_rfind (CHR ''/'') p;
          dotIndex = str_rfind (CHR ''.'') p
      in if dotIndex > sepIndex \<and> splitext_scan p (sepIndex + 1) dotIndex
         then (slice_to p dotIndex, slice_from p dotIndex)
         else (p, slice_to p 0))"

section \<open>The extension resolver\<close>

definition image_extensions :: "string list" where
  "image_extensions = [''.png'', ''.jpg'', ''.jpeg'', ''.svg'', ''.webp'', ''.gif'']"

definition get_extension_from_url :: "(string \<Rightarrow> bool) \<Rightarrow> string \<Rightarrow> exn + string" where
  "get_extension_from_url ip6 url =
     (case urlparse ip6 url of
        Inl e \<Rightarrow> Inl e
      | Inr parsed \<Rightarrow>
          (let ext = snd (splitext (path parsed))
           in Inr (if ext = [] then ''.png''
                   else if lower ext \<notin> set image_extensions then ''.png''
                   else ext)))"

section \<open>The world around the program\<close>

text \<open>
  The program reads and writes the directory \<open>./token-logo\<close> and talks to the network.
  Both are explicit here. A \<open>world\<close> holds the files of the directory by name (the
  entries that the system finds when asked), the requests sent so far, in order, and the trace of the calls of \<open>download_file\<close> (its
  arguments, in order; the trace is an observation only, nothing reads it). The test
  \<open>filepath.exists()\<close> holds for an entry of any kind; every entry is a file here.
  Console output and the delays between attempts and records are not modelled.

  What the outside answers is the environment: \<open>net n req\<close> is the outcome of building
  and opening the request \<open>req\<close> when \<open>n\<close> requests were sent before it, \<open>disk n name\<close>
  is what happens to the file written during that attempt, and \<open>ip6\<close> is the verdict of
  the library on a bracketed host. \<open>exists_raises n name\<close> says that the system answers
  the existence test of an entry it does not find with an error other than "no such
  entry" (the name is longer than the file system allows, the directory may not be
  searched), which \<open>filepath.exists()\<close> raises as \<open>OSError\<close>; \<open>listing_raises n\<close> says
  that the files of the directory cannot be counted (it is gone or may not be read), so
  that \<open>iterdir\<close> or \<open>is_file\<close> at line 136 raises \<open>OSError\<close>. An environment is arbitrary, so a statement
  for every environment covers every pattern of answers and failures.
\<close>

record request =
  req_url :: string
  req_headers :: "(string \<times> string) list"
  req_timeout :: nat

datatype read_result =
    ReadOk bytes       \<comment> \<open>\<open>response.read()\<close> returns the whole body\<close>
  | ReadRaises         \<comment> \<open>\<open>response.read()\<close> raises (connection lost, time-out, short body)\<close>

datatype reply =
    RaisesHTTPError nat   \<comment> \<open>\<open>urlopen\<close> raises \<open>urllib.error.HTTPError\<close> with this code\<close>
  | RaisesURLError        \<comment> \<open>\<open>urlopen\<close> raises \<open>urllib.error.URLError\<close>\<close>
  | RaisesOther           \<comment> \<open>any other \<open>Exception\<close> while the request is built or opened\<close>
  | Responds nat read_result
      \<comment> \<open>a response with this status, and what reading it gives; a response without a
          status (a \<open>file:\<close> URL) goes the way of any status other than 200\<close>

datatype disk_result =
    WriteOk             \<comment> \<open>\<open>open\<close> and \<open>write\<close> both succeed\<close>
  | OpenRaises          \<comment> \<open>\<open>open(filepath, 'wb')\<close> raises; no file is made\<close>
  | WriteRaises nat     \<comment> \<open>\<open>write\<close> raises after this many bytes\<close>

record env =
  net :: "nat \<Rightarrow> request \<Rightarrow> reply"
  disk :: "nat \<Rightarrow> string \<Rightarrow> disk_result"
  ip6 :: "string \<Rightarrow> bool"
  exists_raises :: "nat \<Rightarrow> string \<Rightarrow> bool"
  listing_raises :: "nat \<Rightarrow> bool"

record world =
  files :: "string \<rightharpoonup> bytes"
  sent :: "request list"
  calls :: "(string \<times> string) list"

section \<open>The fetcher\<close>

definition user_agents :: "string list" where
  "user_agents =
     [''Mozilla/5.0 (Macintosh; Intel Mac OS X 10_15_7) AppleWebKit/537.36 (KHTML, like Gecko) Chrome/120.0.0.0 Safari/537.36'',
      ''Mozilla/5.0 (Windows NT 10.0; Win64; x64) AppleWebKit/537.36 (KHTML, like Gecko) Chrome/120.0.0.0 Safari/537.36'',
      ''curl/7.68.0'',
      ''wget/1.21.3'']"

definition aux_headers :: "(string \<times> string) list" where
  \<comment> \<open>lines 67 to 70: the headers that every attempt sends\<close>
  "aux_headers =
     [(''Accept'', ''image/webp,image/apng,image/svg+xml,image/*,*/*;q=0.8''),
      (''Accept-Language'', ''en-US,en;q=0.9''),
      (''DNT'', ''1''),
      (''Connection'', ''keep-alive'')]"

definition make_request :: "string \<Rightarrow> string \<Rightarrow> request" where
  \<comment> \<open>lines 65 to 70 and the time-out of line 73\<close>
  "make_request url user_agent =
     \<lparr>req_url = url,
      req_headers = (''User-Agent'', user_agent) # aux_headers,
      req_timeout = 30\<rparr>"

text \<open>
  One round of the loop over the user agents (lines 63 to 100). The result is True when
  the round returns True from \<open>download_file\<close>, and False when the loop goes on: every
  exception raised inside the \<open>try\<close> is caught by one of the three handlers, which only
  print. On a response with status 200 the file is opened for writing first, which makes
  it or empties it, then the body is read, then it is written.
\<close>

definition attempt :: "env \<Rightarrow> string \<Rightarrow> string \<Rightarrow> string \<Rightarrow> world \<Rightarrow> bool \<times> world" where
  "attempt E url filepath user_agent w =
     (let req = make_request url user_agent;
          n = length (sent w);
          w1 = w\<lparr>sent := sent w @ [req]\<rparr>
      in case net E n req of
           Responds status rd \<Rightarrow>
             if status = 200 then
               (case disk E n filepath of
                  OpenRaises \<Rightarrow> (False, w1)
                | dr \<Rightarrow>
                    (let w2 = w1\<lparr>files := (files w1)(filepath \<mapsto> [])\<rparr>
                     in case rd of
                          ReadRaises \<Rightarrow> (False, w2)
                        | ReadOk body \<Rightarrow>
                            (case dr of
                               WriteRaises k \<Rightarrow>
                                 (False, w2\<lparr>files := (files w2)(filepath \<mapsto> take k body)\<rparr>)
                             | _ \<Rightarrow> (True, w2\<lparr>files := (files w2)(filepath \<mapsto> body)\<rparr>))))
             else (False, w1)
         | _ \<Rightarrow> (False, w1))"

fun try_agents :: "env \<Rightarrow> string \<Rightarrow> string \<Rightarrow> string list \<Rightarrow> world \<Rightarrow> bool \<times> world" where
  "try_agents E url filepath [] w = (False, w)"
| "try_agents E url filepath (user_agent # rest) w =
     (case attempt E url filepath user_agent w of
        (True, w') \<Rightarrow> (True, w')
      | (False, w') \<Rightarrow> try_agents E url filepath rest w')"

definition path_exists :: "env \<Rightarrow> world \<Rightarrow> string \<Rightarrow> exn + bool" where
  \<comment> \<open>\<open>filepath.exists()\<close> (line 48): True for an entry that the system finds, False
      when it reports that there is no such entry; any other error of the system is
      raised as \<open>OSError\<close>\<close>
  "path_exists E w name =
     (if files w name \<noteq> None then Inr True
      else if exists_raises E (length (sent w)) name then Inl OSError
      else Inr False)"

text \<open>
  \<open>download_file\<close>. The extension is resolved (line 43) and the destination is tested
  (line 48) before the \<open>try\<close> of line 63, so an exception of either leaves the function.
\<close>

definition download_file :: "env \<Rightarrow> string \<Rightarrow> string \<Rightarrow> world \<Rightarrow> exn + (bool \<times> world)" where
  "download_file E url filename w0 =
     (let w = w0\<lparr>calls := calls w0 @ [(url, filename)]\<rparr>
      in if url = [] then Inr (False, w)
         else (case get_extension_from_url (ip6 E) url of
                 Inl e \<Rightarrow> Inl e
               | Inr extension \<Rightarrow>
                   (let safe_filename = sanitize_filename filename @ extension
                    in case path_exists E w safe_filename of
                         Inl e \<Rightarrow> Inl e
                       | Inr True \<Rightarrow> Inr (True, w)
                       | Inr False \<Rightarrow> Inr (try_agents E url safe_filename user_agents w))))"

section \<open>The orchestrator\<close>

text \<open>
  The records are read from \<open>token-list.json\<close> and the directory is made when the module
  is loaded, before \<open>main\<close> runs: here the records are the argument of \<open>main\<close> and the
  directory is part of the world. A record is a JSON object with the key \<open>symbol\<close> and,
  possibly, the key \<open>logoUrl\<close>, whose value is a string or \<open>null\<close>.
\<close>

record token =
  symbol :: string
  logoUrl :: "string option"

record counters =
  downloaded :: int
  skipped :: int
  failed :: int

definition count_fetch :: "bool \<Rightarrow> counters \<Rightarrow> counters" where
  \<comment> \<open>lines 115 to 118: what the caller does with the result of \<open>download_file\<close>\<close>
  "count_fetch ok c =
     (if ok then c\<lparr>downloaded := downloaded c + 1\<rparr> else c\<lparr>failed := failed c + 1\<rparr>)"

definition main_step :: "env \<Rightarrow> token \<Rightarrow> counters \<times> world \<Rightarrow> exn + (counters \<times> world)" where
  \<comment> \<open>the body of the loop; \<open>token.get('logoUrl')\<close> is false for a missing key, for
      \<open>None\<close> and for the empty string\<close>
  "main_step E tok st =
     (case st of (c, w) \<Rightarrow>
        (case logoUrl tok of
           None \<Rightarrow> Inr (c\<lparr>skipped := skipped c + 1\<rparr>, w)
         | Some url \<Rightarrow>
             if url \<noteq> [] then
               (let filename = symbol tok
                in case download_file E url filename w of
                     Inl e \<Rightarrow> Inl e
                   | Inr (ok, w') \<Rightarrow> Inr (count_fetch ok c, w'))
             else Inr (c\<lparr>skipped := skipped c + 1\<rparr>, w)))"

fun main_loop :: "env \<Rightarrow> token list \<Rightarrow> counters \<times> world \<Rightarrow> exn + (counters \<times> world)" where
  "main_loop E [] st = Inr st"
| "main_loop E (tok # rest) st =
     (case main_step E tok st of
        Inl e \<Rightarrow> Inl e
      | Inr st' \<Rightarrow> main_loop E rest st')"

definition process_records :: "env \<Rightarrow> token list \<Rightarrow> world \<Rightarrow> exn + (counters \<times> world)" where
  \<comment> \<open>lines 107 to 128 of \<open>main\<close>: the counters start at 0 and the loop runs over the
      records\<close>
  "process_records E token_list w =
     main_loop E token_list (\<lparr>downloaded = 0, skipped = 0, failed = 0\<rparr>, w)"

definition main :: "env \<Rightarrow> token list \<Rightarrow> world \<Rightarrow> exn + (counters \<times> world)" where
  \<comment> \<open>the loop, then the final summary (lines 130 to 137): the three counters are
      printed, then the directory is listed and its files are counted, which raises when
      the directory cannot be listed. The result is the counters that the summary
      prints, with the directory as the run leaves it.\<close>
  "main E token_list w =
     (case process_records E token_list w of
        Inl e \<Rightarrow> Inl e
      | Inr (c, w') \<Rightarrow>
          if listing_raises E (length (sent w')) then Inl OSError else Inr (c, w'))"

section \<open>The extension as the specification words it\<close>

text \<open>
  The specification describes the extension as the substring from the last dot to the end
  of the final path segment. These definitions follow its words; they are compared with
  \<open>splitext\<close> below.
\<close>

definition last_segment :: "string \<Rightarrow> string" where
  \<comment> \<open>the text after the last \<open>/\<close>, the whole path when it has none\<close>
  "last_segment p = rev (takeWhile (\<lambda>c. c \<noteq> CHR ''/'') (rev p))"

definition from_last_dot :: "string \<Rightarrow> string" where
  \<comment> \<open>the substring from the last dot to the end, empty when there is no dot\<close>
  "from_last_dot seg =
     (if CHR ''.'' \<in> set seg then CHR ''.'' # rev (takeWhile (\<lambda>c. c \<noteq> CHR ''.'') (rev seg))
      else [])"

definition before_last_dot :: "string \<Rightarrow> string" where
  \<comment> \<open>what stands in front of that substring\<close>
  "before_last_dot seg = take (length seg - length (from_last_dot seg)) seg"

definition spec_resolve :: "string \<Rightarrow> string" where
  \<comment> \<open>the resolver of the specification, on the path component of the URL\<close>
  "spec_resolve p =
     (let ext = from_last_dot (last_segment p)
      in if ext = [] then ''.png''
         else if lower ext \<notin> set image_extensions then ''.png''
         else ext)"

definition segment_ext :: "string \<Rightarrow> string" where
  \<comment> \<open>the rule of \<open>os.path.splitext\<close> in the same words: the substring from the last
      dot counts only when a character other than a dot stands before it in the segment\<close>
  "segment_ext seg =
     (if list_ex (\<lambda>c. c \<noteq> CHR ''.'') (before_last_dot seg) then from_last_dot seg else [])"

definition posix_resolve :: "string \<Rightarrow> string" where
  \<comment> \<open>the resolver with that rule, on the path component of the URL\<close>
  "posix_resolve p =
     (let ext = segment_ext (last_segment p)
      in if ext = [] then ''.png''
         else if lower ext \<notin> set image_extensions then ''.png''
         else ext)"

section \<open>Sample inputs\<close>

text \<open>
  Environments, records and worlds at which the statements below are evaluated. None of
  the sample URLs has a bracketed host, so the verdict on such hosts is never asked for.
\<close>

definition ip6_none :: "string \<Rightarrow> bool" where
  "ip6_none hostname = False"

definition empty_world :: world where
  "empty_world = \<lparr>files = Map.empty, sent = [], calls = []\<rparr>"

definition env_good_bad :: "bytes \<Rightarrow> env" where
  \<comment> \<open>\<open>http://good/a.png\<close> answers 200 with a body, every other URL 404\<close>
  "env_good_bad body =
     \<lparr>net = (\<lambda>n req. if req_url req = ''http://good/a.png'' then Responds 200 (ReadOk body)
                      else RaisesHTTPError 404),
      disk = (\<lambda>n name. WriteOk),
      ip6 = ip6_none,
      exists_raises = (\<lambda>n name. False),
      listing_raises = (\<lambda>n. False)\<rparr>"

definition three_records :: "token list" where
  "three_records =
     [\<lparr>symbol = ''AAA'', logoUrl = Some ''http://good/a.png''\<rparr>,
      \<lparr>symbol = ''BBB'', logoUrl = Some ''''\<rparr>,
      \<lparr>symbol = ''CCC'', logoUrl = Some ''http://bad/c.png''\<rparr>]"

definition env_fourth :: env where
  \<comment> \<open>the first three requests answer 404, the fourth 200 with the body \<open>logo\<close>\<close>
  "env_fourth =
     \<lparr>net = (\<lambda>n req. if n = 3 then Responds 200 (ReadOk ''logo'') else RaisesHTTPError 404),
      disk = (\<lambda>n name. WriteOk),
      ip6 = ip6_none,
      exists_raises = (\<lambda>n name. False),
      listing_raises = (\<lambda>n. False)\<rparr>"

definition env_read_fails :: env where
  \<comment> \<open>every request answers 200, and reading the body raises\<close>
  "env_read_fails =
     \<lparr>net = (\<lambda>n req. Responds 200 ReadRaises),
      disk = (\<lambda>n name. WriteOk),
      ip6 = ip6_none,
      exists_raises = (\<lambda>n name. False),
      listing_raises = (\<lambda>n. False)\<rparr>"

definition env_open_fails :: env where
  \<comment> \<open>every request answers 200 with the body \<open>logo\<close>, and the file cannot be
      opened for writing\<close>
  "env_open_fails =
     \<lparr>net = (\<lambda>n req. Responds 200 (ReadOk ''logo'')),
      disk = (\<lambda>n name. OpenRaises),
      ip6 = ip6_none,
      exists_raises = (\<lambda>n name. False),
      listing_raises = (\<lambda>n. False)\<rparr>"

definition env_name_max :: env where
  \<comment> \<open>every request answers 200 with the body \<open>logo\<close>, files can be written, and the
      system refuses a name of more than 255 characters, as the file systems of Linux
      do\<close>
  "env_name_max =
     \<lparr>net = (\<lambda>n req. Responds 200 (ReadOk ''logo'')),
      disk = (\<lambda>n name. WriteOk),
      ip6 = ip6_none,
      exists_raises = (\<lambda>n name. 255 < length name),
      listing_raises = (\<lambda>n. False)\<rparr>"

definition status_200 :: "reply \<Rightarrow> bool" where
  \<comment> \<open>the attempt yields a response with status 200\<close>
  "status_200 r = (case r of Responds status rd \<Rightarrow> status = 200 | _ \<Rightarrow> False)"

definition attempt_ok :: "env \<Rightarrow> nat \<Rightarrow> request \<Rightarrow> string \<Rightarrow> bool" where
  \<comment> \<open>the attempt yields status 200, its body is read and the file is written\<close>
  "attempt_ok E n req filepath =
     (case net E n req of
        Responds status (ReadOk body) \<Rightarrow> status = 200 \<and> disk E n filepath = WriteOk
      | _ \<Rightarrow> False)"

definition body_of :: "reply \<Rightarrow> bytes" where
  "body_of r = (case r of Responds status (ReadOk body) \<Rightarrow> body | _ \<Rightarrow> [])"

definition has_logo :: "token \<Rightarrow> bool" where
  \<comment> \<open>\<open>token.get('logoUrl')\<close> is true\<close>
  "has_logo tok = (case logoUrl tok of None \<Rightarrow> False | Some url \<Rightarrow> url \<noteq> [])"

section \<open>Facts about the string functions and \<open>splitext\<close>\<close>

lemma str_rfind_absent: "c \<notin> set s \<Longrightarrow> str_rfind c s = - 1"
  by (simp add: str_rfind_def)

lemma str_rfind_last: "c \<notin> set ys \<Longrightarrow> str_rfind c (xs @ c # ys) = int (length xs)"
proof -
  assume a: "c \<notin> set ys"
  then have "takeWhile (\<lambda>x. x \<noteq> c) (rev ys @ c # rev xs) = rev ys"
    by (induction ys rule: rev_induct) auto
  then show ?thesis
    by (simp add: str_rfind_def)
qed

lemma str_rfind_bounds: "- 1 \<le> str_rfind c s \<and> str_rfind c s < int (length s)"
proof (cases "c \<in> set s")
  case True
  then obtain xs ys where "s = xs @ c # ys" "c \<notin> set ys"
    by (meson split_list_last)
  then show ?thesis using str_rfind_last [of c ys xs] by simp
next
  case False
  then show ?thesis by (simp add: str_rfind_absent)
qed

lemma str_rfind_skip:
  assumes "c \<notin> set ys" "c \<noteq> d"
  shows "str_rfind c (xs @ d # ys) = str_rfind c xs"
proof (cases "c \<in> set xs")
  case True
  then obtain us vs where xs: "xs = us @ c # vs" "c \<notin> set vs"
    by (meson split_list_last)
  with assms have "c \<notin> set (vs @ d # ys)" by simp
  from str_rfind_last [OF this, of us] str_rfind_last [OF xs(2), of us] xs(1)
  show ?thesis by simp
next
  case False
  with assms show ?thesis by (simp add: str_rfind_absent)
qed

lemma slice_one: "slice (pre @ x # r) (int (length pre)) (int (length pre) + 1) = [x]"
  by (simp add: slice_def norm_index_def nat_add_distrib)

lemma splitext_scan_step:
  "i < j \<Longrightarrow> slice p i (i + 1) = [x] \<Longrightarrow>
   splitext_scan p i j = (x \<noteq> CHR ''.'' \<or> splitext_scan p (i + 1) j)"
  by (subst splitext_scan.simps) auto

lemma splitext_scan_stop: "\<not> i < j \<Longrightarrow> splitext_scan p i j = False"
  by (subst splitext_scan.simps) simp

lemma splitext_scan_stem:
  "splitext_scan (pre @ stem @ rest) (int (length pre)) (int (length pre + length stem))
     = list_ex (\<lambda>c. c \<noteq> CHR ''.'') stem"
proof (induction stem arbitrary: pre)
  case Nil
  show ?case by (simp add: splitext_scan_stop)
next
  case (Cons x xs)
  let ?p = "pre @ (x # xs) @ rest"
  let ?i = "int (length pre)"
  let ?j = "int (length pre + length (x # xs))"
  have lt: "?i < ?j" by simp
  have sl: "slice ?p ?i (?i + 1) = [x]"
    using slice_one [of pre x "xs @ rest"] by simp
  have "splitext_scan ?p ?i ?j = (x \<noteq> CHR ''.'' \<or> splitext_scan ?p (?i + 1) ?j)"
    using lt sl by (rule splitext_scan_step)
  also have "splitext_scan ?p (?i + 1) ?j = list_ex (\<lambda>c. c \<noteq> CHR ''.'') xs"
    using Cons.IH [of "pre @ [x]"] by (simp add: add.commute add.left_commute)
  finally show ?case by simp
qed

lemma last_segment_whole: "CHR ''/'' \<notin> set p \<Longrightarrow> last_segment p = p"
proof -
  assume "CHR ''/'' \<notin> set p"
  then have "takeWhile (\<lambda>c. c \<noteq> CHR ''/'') (rev p) = rev p"
    by (auto simp: takeWhile_eq_all_conv)
  then show ?thesis unfolding last_segment_def by (simp only: rev_rev_ident)
qed

lemma last_segment_split: "CHR ''/'' \<notin> set seg \<Longrightarrow> last_segment (pre @ CHR ''/'' # seg) = seg"
proof -
  assume a: "CHR ''/'' \<notin> set seg"
  then have "takeWhile (\<lambda>c. c \<noteq> CHR ''/'') (rev seg @ CHR ''/'' # rev pre) = rev seg"
    by (induction seg rule: rev_induct) auto
  then show ?thesis by (simp add: last_segment_def)
qed

lemma from_last_dot_none: "CHR ''.'' \<notin> set seg \<Longrightarrow> from_last_dot seg = []"
  by (simp add: from_last_dot_def)

lemma from_last_dot_split:
  "CHR ''.'' \<notin> set tail \<Longrightarrow> from_last_dot (stem @ CHR ''.'' # tail) = CHR ''.'' # tail"
proof -
  assume a: "CHR ''.'' \<notin> set tail"
  then have "takeWhile (\<lambda>c. c \<noteq> CHR ''.'') (rev tail @ CHR ''.'' # rev stem) = rev tail"
    by (induction tail rule: rev_induct) auto
  then show ?thesis by (simp add: from_last_dot_def)
qed

lemma before_last_dot_split:
  "CHR ''.'' \<notin> set tail \<Longrightarrow> before_last_dot (stem @ CHR ''.'' # tail) = stem"
  by (simp add: before_last_dot_def from_last_dot_split)

lemma splitext_prefix:
  assumes sep: "str_rfind (CHR ''/'') (pre @ seg) = int (length pre) - 1"
    and dotpre: "CHR ''.'' \<notin> set seg \<Longrightarrow> str_rfind (CHR ''.'') (pre @ seg) < int (length pre)"
  shows "snd (splitext (pre @ seg)) = segment_ext seg"
proof (cases "CHR ''.'' \<in> set seg")
  case False
  with dotpre have "\<not> str_rfind (CHR ''.'') (pre @ seg) > str_rfind (CHR ''/'') (pre @ seg)"
    using sep by simp
  then show ?thesis using False
    by (simp add: splitext_def segment_ext_def from_last_dot_none slice_to_def norm_index_def)
next
  case True
  then obtain stem tail where seg: "seg = stem @ CHR ''.'' # tail" "CHR ''.'' \<notin> set tail"
    by (meson split_list_last)
  let ?p = "pre @ stem @ CHR ''.'' # tail"
  have sep': "str_rfind (CHR ''/'') ?p = int (length pre) - 1"
    using sep seg(1) by simp
  have dot: "str_rfind (CHR ''.'') ?p = int (length pre + length stem)"
    using str_rfind_last [OF seg(2), of "pre @ stem"] by simp
  have scan: "splitext_scan ?p (int (length pre) - 1 + 1) (int (length pre + length stem))
                = list_ex (\<lambda>c. c \<noteq> CHR ''.'') stem"
    using splitext_scan_stem [of pre stem "CHR ''.'' # tail"] by simp
  have ext: "slice_from ?p (int (length pre + length stem)) = CHR ''.'' # tail"
    by (simp add: slice_from_def norm_index_def)
  have "snd (splitext ?p) = (if list_ex (\<lambda>c. c \<noteq> CHR ''.'') stem then CHR ''.'' # tail else [])"
    unfolding splitext_def Let_def sep' dot scan ext
    by (simp add: slice_to_def norm_index_def)
  moreover have "segment_ext (stem @ CHR ''.'' # tail) =
      (if list_ex (\<lambda>c. c \<noteq> CHR ''.'') stem then CHR ''.'' # tail else [])"
    using seg(2) by (simp add: segment_ext_def before_last_dot_split from_last_dot_split)
  ultimately show ?thesis using seg(1) by simp
qed

lemma splitext_last_segment: "snd (splitext p) = segment_ext (last_segment p)"
proof (cases "CHR ''/'' \<in> set p")
  case False
  then have "str_rfind (CHR ''/'') ([] @ p) = int (length ([]::string)) - 1"
    by (simp add: str_rfind_absent)
  moreover have "CHR ''.'' \<notin> set p \<Longrightarrow> str_rfind (CHR ''.'') ([] @ p) < int (length ([]::string))"
    by (simp add: str_rfind_absent)
  ultimately have "snd (splitext ([] @ p)) = segment_ext p"
    by (rule splitext_prefix)
  with False show ?thesis by (simp add: last_segment_whole)
next
  case True
  then obtain pre seg where p: "p = pre @ CHR ''/'' # seg" "CHR ''/'' \<notin> set seg"
    by (meson split_list_last)
  have sep: "str_rfind (CHR ''/'') ((pre @ ''/'') @ seg) = int (length (pre @ ''/'')) - 1"
    using str_rfind_last [OF p(2), of pre] by simp
  have dotpre: "CHR ''.'' \<notin> set seg \<Longrightarrow>
      str_rfind (CHR ''.'') ((pre @ ''/'') @ seg) < int (length (pre @ ''/''))"
  proof -
    assume "CHR ''.'' \<notin> set seg"
    then have "str_rfind (CHR ''.'') (pre @ CHR ''/'' # seg) = str_rfind (CHR ''.'') pre"
      by (rule str_rfind_skip) simp
    then show ?thesis using str_rfind_bounds [of "CHR ''.''" pre] by simp
  qed
  from sep dotpre have "snd (splitext ((pre @ ''/'') @ seg)) = segment_ext seg"
    by (rule splitext_prefix)
  with p show ?thesis by (simp add: last_segment_split)
qed

section \<open>Facts about one attempt and the loop over the user agents\<close>

lemma attempt_shape:
  "\<exists>F. attempt E url fp ua w =
         (attempt_ok E (length (sent w)) (make_request url ua) fp,
          w\<lparr>sent := sent w @ [make_request url ua], files := F\<rparr>) \<and>
       (\<forall>fp'. fp' \<noteq> fp \<longrightarrow> F fp' = files w fp') \<and>
       (attempt_ok E (length (sent w)) (make_request url ua) fp \<longrightarrow>
          F = (files w)(fp \<mapsto> body_of (net E (length (sent w)) (make_request url ua))))"
proof (cases "net E (length (sent w)) (make_request url ua)")
  case (Responds status rd)
  show ?thesis
  proof (cases "status = 200")
    case True
    show ?thesis
    proof (cases "disk E (length (sent w)) fp")
      case WriteOk
      then show ?thesis using Responds True
        by (cases rd) (auto simp: attempt_def attempt_ok_def body_of_def Let_def
            intro!: exI [where x = "(files w)(fp \<mapsto> x)" for x])
    next
      case OpenRaises
      then show ?thesis using Responds True
        by (cases rd) (auto simp: attempt_def attempt_ok_def Let_def intro!: exI [where x = "files w"])
    next
      case (WriteRaises k)
      then show ?thesis using Responds True
        by (cases rd) (auto simp: attempt_def attempt_ok_def body_of_def Let_def
            intro!: exI [where x = "(files w)(fp \<mapsto> x)" for x])
    qed
  next
    case False
    then show ?thesis using Responds
      by (auto simp: attempt_def attempt_ok_def Let_def intro!: exI [where x = "files w"]
          split: read_result.splits)
  qed
qed (auto simp: attempt_def attempt_ok_def Let_def intro!: exI [where x = "files w"])


lemma map_upd_agree:
  "(\<forall>fp'. fp' \<noteq> fp \<longrightarrow> F fp' = G fp') \<Longrightarrow> F(fp \<mapsto> b) = G(fp \<mapsto> b)"
  by (rule ext) simp

lemma try_agents_shape:
  "\<exists>k F. k \<le> length uas \<and>
     snd (try_agents E url fp uas w) =
       w\<lparr>sent := sent w @ map (make_request url) (take k uas), files := F\<rparr> \<and>
     (\<forall>fp'. fp' \<noteq> fp \<longrightarrow> F fp' = files w fp') \<and>
     (fst (try_agents E url fp uas w) \<longrightarrow> F fp \<noteq> None)"
proof (induction uas arbitrary: w)
  case Nil
  show ?case by (intro exI [where x = 0] exI [where x = "files w"]) simp
next
  case (Cons ua rest)
  let ?ok = "attempt_ok E (length (sent w)) (make_request url ua) fp"
  obtain F1 where a: "attempt E url fp ua w =
        (?ok, w\<lparr>sent := sent w @ [make_request url ua], files := F1\<rparr>)"
    and off: "\<forall>fp'. fp' \<noteq> fp \<longrightarrow> F1 fp' = files w fp'"
    and on: "?ok \<longrightarrow> F1 = (files w)(fp \<mapsto> body_of (net E (length (sent w)) (make_request url ua)))"
    using attempt_shape [of E url fp ua w] by blast
  let ?w1 = "w\<lparr>sent := sent w @ [make_request url ua], files := F1\<rparr>"
  show ?case
  proof (cases ?ok)
    case True
    with a on show ?thesis
      by (intro exI [where x = 1] exI [where x = F1]) (use off in \<open>simp add: fun_upd_def\<close>)
  next
    case False
    from Cons.IH [of ?w1] obtain k F where k: "k \<le> length rest"
      and s: "snd (try_agents E url fp rest ?w1) =
                ?w1\<lparr>sent := sent ?w1 @ map (make_request url) (take k rest), files := F\<rparr>"
      and o: "\<forall>fp'. fp' \<noteq> fp \<longrightarrow> F fp' = files ?w1 fp'"
      and f: "fst (try_agents E url fp rest ?w1) \<longrightarrow> F fp \<noteq> None"
      by blast
    have t: "try_agents E url fp (ua # rest) w = try_agents E url fp rest ?w1"
      using a False by simp
    show ?thesis
      by (intro exI [where x = "Suc k"] exI [where x = F]) (use k s o f off t in simp)
  qed
qed

lemma try_agents_first_ok:
  "i < length uas \<Longrightarrow>
   attempt_ok E (length (sent w) + i) (make_request url (uas ! i)) fp \<Longrightarrow>
   (\<forall>j<i. \<not> attempt_ok E (length (sent w) + j) (make_request url (uas ! j)) fp) \<Longrightarrow>
   try_agents E url fp uas w =
     (True, w\<lparr>sent := sent w @ map (make_request url) (take (Suc i) uas),
              files := (files w)(fp \<mapsto> body_of (net E (length (sent w) + i)
                                                  (make_request url (uas ! i))))\<rparr>)"
proof (induction uas arbitrary: w i)
  case Nil
  then show ?case by simp
next
  case (Cons ua rest)
  let ?ok = "attempt_ok E (length (sent w)) (make_request url ua) fp"
  obtain F1 where a: "attempt E url fp ua w =
        (?ok, w\<lparr>sent := sent w @ [make_request url ua], files := F1\<rparr>)"
    and off: "\<forall>fp'. fp' \<noteq> fp \<longrightarrow> F1 fp' = files w fp'"
    and on: "?ok \<longrightarrow> F1 = (files w)(fp \<mapsto> body_of (net E (length (sent w)) (make_request url ua)))"
    using attempt_shape [of E url fp ua w] by blast
  let ?w1 = "w\<lparr>sent := sent w @ [make_request url ua], files := F1\<rparr>"
  show ?case
  proof (cases i)
    case 0
    with Cons.prems have ok: ?ok by simp
    with a on 0 show ?thesis by (simp add: fun_upd_def)
  next
    case (Suc i')
    with Cons.prems have nok: "\<not> ?ok" by auto
    have i': "i' < length rest" using Cons.prems(1) Suc by simp
    have ok': "attempt_ok E (length (sent ?w1) + i') (make_request url (rest ! i')) fp"
      using Cons.prems(2) Suc by simp
    have no': "\<forall>j<i'. \<not> attempt_ok E (length (sent ?w1) + j) (make_request url (rest ! j)) fp"
    proof (intro allI impI)
      fix j assume "j < i'"
      then have "Suc j < i" using Suc by simp
      with Cons.prems(3) have "\<not> attempt_ok E (length (sent w) + Suc j)
          (make_request url ((ua # rest) ! Suc j)) fp" by blast
      then show "\<not> attempt_ok E (length (sent ?w1) + j) (make_request url (rest ! j)) fp"
        by simp
    qed
    have t: "try_agents E url fp (ua # rest) w = try_agents E url fp rest ?w1"
      using a nok by simp
    have upd: "F1(fp \<mapsto> b) = (files w)(fp \<mapsto> b)" for b
      using off by (rule map_upd_agree)
    show ?thesis
      unfolding t Cons.IH [OF i' ok' no']
      using Suc by (simp add: upd) (simp add: fun_upd_def)
  qed
qed

lemma try_agents_none_ok:
  "(\<forall>i<length uas. \<not> attempt_ok E (length (sent w) + i) (make_request url (uas ! i)) fp) \<Longrightarrow>
   fst (try_agents E url fp uas w) = False \<and>
   sent (snd (try_agents E url fp uas w)) = sent w @ map (make_request url) uas \<and>
   calls (snd (try_agents E url fp uas w)) = calls w"
proof (induction uas arbitrary: w)
  case Nil
  show ?case by simp
next
  case (Cons ua rest)
  let ?ok = "attempt_ok E (length (sent w)) (make_request url ua) fp"
  obtain F1 where a: "attempt E url fp ua w =
        (?ok, w\<lparr>sent := sent w @ [make_request url ua], files := F1\<rparr>)"
    using attempt_shape [of E url fp ua w] by blast
  let ?w1 = "w\<lparr>sent := sent w @ [make_request url ua], files := F1\<rparr>"
  from Cons.prems have nok: "\<not> ?ok" by auto
  have no': "\<forall>j<length rest. \<not> attempt_ok E (length (sent ?w1) + j) (make_request url (rest ! j)) fp"
  proof (intro allI impI)
    fix j assume "j < length rest"
    then have "Suc j < length (ua # rest)" by simp
    with Cons.prems have "\<not> attempt_ok E (length (sent w) + Suc j)
        (make_request url ((ua # rest) ! Suc j)) fp" by blast
    then show "\<not> attempt_ok E (length (sent ?w1) + j) (make_request url (rest ! j)) fp"
      by simp
  qed
  have t: "try_agents E url fp (ua # rest) w = try_agents E url fp rest ?w1"
    using a nok by simp
  show ?case
    unfolding t using Cons.IH [OF no'] by simp
qed

section \<open>The sanitizer keeps the length and the safe characters\<close>

text \<open>
  C3. For every input string the sanitizer returns a string of the same length, in which
  each character outside \<open>[A-Za-z0-9\-_.]\<close> is replaced by an underscore and each character
  inside is kept; so every character of the result lies in the set, and a string whose
  characters all lie in the set is returned as it is.
\<close>

theorem sanitize_filename_pointwise:
  "length (sanitize_filename s) = length s \<and>
   (\<forall>i<length s. sanitize_filename s ! i = (if safe_char (s ! i) then s ! i else CHR ''_'')) \<and>
   (\<forall>c\<in>set (sanitize_filename s). safe_char c) \<and>
   ((\<forall>c\<in>set s. safe_char c) \<longrightarrow> sanitize_filename s = s)"
proof (intro conjI)
  have underscore: "safe_char (CHR ''_'')"
    by (simp add: safe_char_def)
  show "length (sanitize_filename s) = length s"
    by (simp add: sanitize_filename_def)
  show "\<forall>i<length s. sanitize_filename s ! i = (if safe_char (s ! i) then s ! i else CHR ''_'')"
    by (simp add: sanitize_filename_def)
  show "\<forall>c\<in>set (sanitize_filename s). safe_char c"
    using underscore by (auto simp: sanitize_filename_def)
  show "(\<forall>c\<in>set s. safe_char c) \<longrightarrow> sanitize_filename s = s"
    by (simp add: sanitize_filename_def map_idI)
qed

theorem sanitize_filename_pointwise_witness:
  "sanitize_filename ''A-z_0.9'' = ''A-z_0.9'' \<and> length (sanitize_filename ''US$ 1/x'') = 7"
proof -
  have safe: "\<forall>c\<in>set ''A-z_0.9''. safe_char c"
    by (simp add: safe_char_def in_range_def ord_def)
  have ident: "(\<forall>c\<in>set ''A-z_0.9''. safe_char c) \<longrightarrow> sanitize_filename ''A-z_0.9'' = ''A-z_0.9''"
    using sanitize_filename_pointwise [of "''A-z_0.9''"] by (elim conjE)
  have len: "length (sanitize_filename ''US$ 1/x'') = length ''US$ 1/x''"
    using sanitize_filename_pointwise [of "''US$ 1/x''"] by (elim conjE)
  from ident safe have "sanitize_filename ''A-z_0.9'' = ''A-z_0.9''" by (rule mp)
  moreover from len have "length (sanitize_filename ''US$ 1/x'') = 7" by simp
  ultimately show ?thesis by (rule conjI)
qed

section \<open>The extension resolver follows \<open>splitext\<close>\<close>

lemma posix_resolve_spec:
  assumes "list_ex (\<lambda>c. c \<noteq> CHR ''.'') (before_last_dot (last_segment p))"
  shows "posix_resolve p = spec_resolve p"
  using assms by (simp add: posix_resolve_def spec_resolve_def segment_ext_def)

text \<open>
  C2, as amended. For every URL string that the URL parser accepts, the extension resolver
  takes the final segment of the path component and, in it, the substring from the last
  dot to the end, provided that a character other than a dot stands before that dot in the
  segment; otherwise the extension is empty. An empty extension gives \<open>.png\<close>, an extension
  that is not one of \<open>.png .jpg .jpeg .svg .webp .gif\<close> in lower case gives \<open>.png\<close>, any
  other extension is returned as found, in its own case. Whenever a character other than
  a dot stands before the last dot of the segment, this is the resolver of the
  specification. A URL that the parser rejects makes the resolver raise its \<open>ValueError\<close>.
\<close>

theorem get_extension_from_url_posix:
  "(\<forall>e. urlparse v6 url = Inl e \<longrightarrow> get_extension_from_url v6 url = Inl e) \<and>
   (\<forall>parsed. urlparse v6 url = Inr parsed \<longrightarrow>
      get_extension_from_url v6 url = Inr (posix_resolve (path parsed)) \<and>
      (list_ex (\<lambda>c. c \<noteq> CHR ''.'') (before_last_dot (last_segment (path parsed))) \<longrightarrow>
         get_extension_from_url v6 url = Inr (spec_resolve (path parsed))))"
proof (intro conjI allI impI)
  fix e assume "urlparse v6 url = Inl e"
  then show "get_extension_from_url v6 url = Inl e"
    by (simp add: get_extension_from_url_def)
next
  fix parsed assume p: "urlparse v6 url = Inr parsed"
  then show r: "get_extension_from_url v6 url = Inr (posix_resolve (path parsed))"
    by (simp add: get_extension_from_url_def posix_resolve_def splitext_last_segment Let_def)
  assume "list_ex (\<lambda>c. c \<noteq> CHR ''.'') (before_last_dot (last_segment (path parsed)))"
  then show "get_extension_from_url v6 url = Inr (spec_resolve (path parsed))"
    using r by (simp add: posix_resolve_spec)
qed

text \<open>The example of the specification: the case of \<open>.SVG\<close> is kept.\<close>

theorem get_extension_from_url_posix_witness:
  "get_extension_from_url ip6_none ''https://x.com/a/b.SVG'' = Inr ''.SVG''"
proof -
  let ?parsed = "\<lparr>scheme = ''https'', netloc = ''x.com'', path = ''/a/b.SVG'', params = [],
          query = [], fragment = []\<rparr>"
  have p: "urlparse ip6_none ''https://x.com/a/b.SVG'' = Inr ?parsed"
    by code_simp
  have stem: "list_ex (\<lambda>c. c \<noteq> CHR ''.'') (before_last_dot (last_segment (path ?parsed)))"
    by code_simp
  have "get_extension_from_url ip6_none ''https://x.com/a/b.SVG'' = Inr (spec_resolve (path ?parsed))"
    using get_extension_from_url_posix [of ip6_none "''https://x.com/a/b.SVG''"] p stem by blast
  moreover have "spec_resolve (path ?parsed) = ''.SVG''"
    by code_simp
  ultimately show ?thesis by simp
qed

text \<open>
  C2 as the specification states it fails on a final segment that starts with its last
  dot: the path of \<open>https://x.com/a/.jpg\<close> is \<open>/a/.jpg\<close>, the substring from the last dot
  of its final segment is \<open>.jpg\<close>, an image extension, and the resolver returns \<open>.png\<close>.
\<close>

theorem get_extension_from_url_dotfile:
  "urlparse ip6_none ''https://x.com/a/.jpg'' =
     Inr \<lparr>scheme = ''https'', netloc = ''x.com'', path = ''/a/.jpg'', params = [],
          query = [], fragment = []\<rparr> \<and>
   spec_resolve ''/a/.jpg'' = ''.jpg'' \<and>
   get_extension_from_url ip6_none ''https://x.com/a/.jpg'' = Inr ''.png''"
proof (intro conjI)
  show "urlparse ip6_none ''https://x.com/a/.jpg'' =
     Inr \<lparr>scheme = ''https'', netloc = ''x.com'', path = ''/a/.jpg'', params = [],
          query = [], fragment = []\<rparr>"
    by code_simp
  show "spec_resolve ''/a/.jpg'' = ''.jpg''"
    by code_simp
  show "get_extension_from_url ip6_none ''https://x.com/a/.jpg'' = Inr ''.png''"
    by code_simp
qed

section \<open>The fetcher: retries, success and failure\<close>

lemma length_user_agents: "length user_agents = 4"
  by (simp add: user_agents_def)

lemma download_file_fetch:
  assumes "url \<noteq> []" and "get_extension_from_url (ip6 E) url = Inr ext"
    and "files w (sanitize_filename filename @ ext) = None"
    and "\<not> exists_raises E (length (sent w)) (sanitize_filename filename @ ext)"
  shows "download_file E url filename w =
           Inr (try_agents E url (sanitize_filename filename @ ext) user_agents
                  (w\<lparr>calls := calls w @ [(url, filename)]\<rparr>))"
  using assms by (simp add: download_file_def path_exists_def Let_def)

lemma ext_logo: "get_extension_from_url ip6_none ''http://h/logo.png'' = Inr ''.png''"
  by code_simp

lemma sanitize_TOK: "sanitize_filename ''TOK'' = ''TOK''"
  by code_simp

text \<open>
  C5, as amended. For every fetch of a non-empty URL that the URL parser accepts and whose
  destination does not exist yet, the existence test of line 48 raising no error, the
  fetcher sends at most 4 requests, one per user agent
  of a fixed ordered list of four (two browser strings, then \<open>curl\<close> and \<open>wget\<close>), each to
  the same URL with the same other headers and the time-out 30. It returns success at the
  first attempt that yields status 200 and whose body is read and written to the
  destination without an exception; the destination then holds the body of that attempt,
  no later request is sent and no other file is touched. It returns failure exactly when
  none of the 4 attempts does so, after all 4 requests.
\<close>

theorem download_file_retries:
  assumes url: "url \<noteq> []"
    and ext: "get_extension_from_url (ip6 E) url = Inr ext"
    and absent: "files w (sanitize_filename filename @ ext) = None"
    and probe: "\<not> exists_raises E (length (sent w)) (sanitize_filename filename @ ext)"
  shows "length user_agents = 4 \<and>
    (\<forall>i<4. attempt_ok E (length (sent w) + i) (make_request url (user_agents ! i))
              (sanitize_filename filename @ ext) \<and>
           (\<forall>j<i. \<not> attempt_ok E (length (sent w) + j) (make_request url (user_agents ! j))
              (sanitize_filename filename @ ext)) \<longrightarrow>
       download_file E url filename w =
         Inr (True, w\<lparr>calls := calls w @ [(url, filename)],
                      sent := sent w @ map (make_request url) (take (Suc i) user_agents),
                      files := (files w)(sanitize_filename filename @ ext \<mapsto>
                         body_of (net E (length (sent w) + i)
                                    (make_request url (user_agents ! i))))\<rparr>)) \<and>
    ((\<forall>i<4. \<not> attempt_ok E (length (sent w) + i) (make_request url (user_agents ! i))
              (sanitize_filename filename @ ext)) \<longrightarrow>
       (\<exists>w'. download_file E url filename w = Inr (False, w') \<and>
             sent w' = sent w @ map (make_request url) user_agents)) \<and>
    ((\<exists>w'. download_file E url filename w = Inr (True, w')) \<longleftrightarrow>
     (\<exists>i<4. attempt_ok E (length (sent w) + i) (make_request url (user_agents ! i))
              (sanitize_filename filename @ ext))) \<and>
    (\<forall>user_agent. make_request url user_agent =
       \<lparr>req_url = url, req_headers = (''User-Agent'', user_agent) # aux_headers,
        req_timeout = 30\<rparr>) \<and>
    map (take 8) user_agents = [''Mozilla/'', ''Mozilla/'', ''curl/7.6'', ''wget/1.2'']"
proof -
  let ?fp = "sanitize_filename filename @ ext"
  let ?w = "w\<lparr>calls := calls w @ [(url, filename)]\<rparr>"
  have d: "download_file E url filename w = Inr (try_agents E url ?fp user_agents ?w)"
    using url ext absent probe by (rule download_file_fetch)
  let ?P = "\<lambda>i. attempt_ok E (length (sent w) + i) (make_request url (user_agents ! i)) ?fp"
  have len: "length user_agents = 4" by (rule length_user_agents)
  have hdr: "\<forall>user_agent. make_request url user_agent =
       \<lparr>req_url = url, req_headers = (''User-Agent'', user_agent) # aux_headers,
        req_timeout = 30\<rparr>"
    by (simp add: make_request_def)
  have kinds: "map (take 8) user_agents = [''Mozilla/'', ''Mozilla/'', ''curl/7.6'', ''wget/1.2'']"
    by (simp add: user_agents_def)
  have first: "download_file E url filename w =
         Inr (True, w\<lparr>calls := calls w @ [(url, filename)],
                      sent := sent w @ map (make_request url) (take (Suc i) user_agents),
                      files := (files w)(?fp \<mapsto>
                         body_of (net E (length (sent w) + i)
                                    (make_request url (user_agents ! i))))\<rparr>)"
    if i: "i < 4"
      and ok: "attempt_ok E (length (sent w) + i) (make_request url (user_agents ! i)) ?fp \<and>
           (\<forall>j<i. \<not> attempt_ok E (length (sent w) + j) (make_request url (user_agents ! j)) ?fp)"
    for i
  proof -
    have "try_agents E url ?fp user_agents ?w =
       (True, ?w\<lparr>sent := sent ?w @ map (make_request url) (take (Suc i) user_agents),
             files := (files ?w)(?fp \<mapsto> body_of (net E (length (sent ?w) + i)
                                                  (make_request url (user_agents ! i))))\<rparr>)"
      using i ok by (intro try_agents_first_ok) (simp_all add: length_user_agents)
    then show ?thesis
      by (simp add: d)
  qed
  have none: "\<exists>w'. download_file E url filename w = Inr (False, w') \<and>
             sent w' = sent w @ map (make_request url) user_agents"
    if no: "\<forall>i<4. \<not> attempt_ok E (length (sent w) + i) (make_request url (user_agents ! i)) ?fp"
  proof -
    from no have "\<forall>i<length user_agents.
        \<not> attempt_ok E (length (sent ?w) + i) (make_request url (user_agents ! i)) ?fp"
      by (simp add: length_user_agents)
    from try_agents_none_ok [OF this]
    have "fst (try_agents E url ?fp user_agents ?w) = False"
      and "sent (snd (try_agents E url ?fp user_agents ?w)) = sent w @ map (make_request url) user_agents"
      by simp_all
    then show ?thesis
      by (cases "try_agents E url ?fp user_agents ?w") (simp add: d)
  qed
  have iff: "(\<exists>w'. download_file E url filename w = Inr (True, w')) \<longleftrightarrow> (\<exists>i<4. ?P i)"
  proof
    assume "\<exists>w'. download_file E url filename w = Inr (True, w')"
    then obtain w' where t: "download_file E url filename w = Inr (True, w')" by blast
    show "\<exists>i<4. ?P i"
    proof (rule ccontr)
      assume "\<not> (\<exists>i<4. ?P i)"
      then have "\<forall>i<4. \<not> ?P i" by blast
      from none [OF this] t show False by simp
    qed
  next
    assume "\<exists>i<4. ?P i"
    then obtain i where i: "i < 4" "?P i" by blast
    define k where "k = (LEAST i. ?P i)"
    have "?P k" unfolding k_def using i(2) by (rule LeastI)
    moreover have "k \<le> i" unfolding k_def using i(2) by (rule Least_le)
    moreover have "\<forall>j<k. \<not> ?P j" unfolding k_def using not_less_Least by blast
    ultimately show "\<exists>w'. download_file E url filename w = Inr (True, w')"
      using first [of k] i(1) by auto
  qed
  from len first none iff hdr kinds show ?thesis by blast
qed

text \<open>
  The case of the specification: the first three attempts fail, the fourth answers 200.
  The download succeeds after four requests and the directory holds the one file, with
  the body of the fourth answer.
\<close>

theorem download_file_retries_witness:
  "download_file env_fourth ''http://h/logo.png'' ''TOK'' empty_world =
     Inr (True, \<lparr>files = [''TOK.png'' \<mapsto> ''logo''],
                 sent = map (make_request ''http://h/logo.png'') user_agents,
                 calls = [(''http://h/logo.png'', ''TOK'')]\<rparr>)"
proof -
  let ?url = "''http://h/logo.png''"
  have url: "?url \<noteq> []" by simp
  have ext: "get_extension_from_url (ip6 env_fourth) ?url = Inr ''.png''"
    using ext_logo by (simp add: env_fourth_def)
  have absent: "files empty_world (sanitize_filename ''TOK'' @ ''.png'') = None"
    by (simp add: empty_world_def)
  have probe: "\<not> exists_raises env_fourth (length (sent empty_world))
                 (sanitize_filename ''TOK'' @ ''.png'')"
    by (simp add: env_fourth_def)
  have ok: "attempt_ok env_fourth (length (sent empty_world) + 3)
              (make_request ?url (user_agents ! 3)) (sanitize_filename ''TOK'' @ ''.png'')"
    by (simp add: attempt_ok_def env_fourth_def empty_world_def)
  have no: "\<forall>j<3. \<not> attempt_ok env_fourth (length (sent empty_world) + j)
              (make_request ?url (user_agents ! j)) (sanitize_filename ''TOK'' @ ''.png'')"
    by (simp add: attempt_ok_def env_fourth_def empty_world_def)
  have "download_file env_fourth ?url ''TOK'' empty_world =
         Inr (True, empty_world\<lparr>calls := calls empty_world @ [(?url, ''TOK'')],
                      sent := sent empty_world @ map (make_request ?url) (take (Suc 3) user_agents),
                      files := (files empty_world)(sanitize_filename ''TOK'' @ ''.png'' \<mapsto>
                         body_of (net env_fourth (length (sent empty_world) + 3)
                                    (make_request ?url (user_agents ! 3))))\<rparr>)"
  proof (rule download_file_retries [OF url ext absent probe, THEN conjunct2, THEN conjunct1,
        rule_format, of 3])
    show "(3::nat) < 4" by simp
    from ok no show "attempt_ok env_fourth (length (sent empty_world) + 3)
              (make_request ?url (user_agents ! 3)) (sanitize_filename ''TOK'' @ ''.png'') \<and>
      (\<forall>j<3. \<not> attempt_ok env_fourth (length (sent empty_world) + j)
              (make_request ?url (user_agents ! j)) (sanitize_filename ''TOK'' @ ''.png''))"
      by (rule conjI)
  qed
  then show ?thesis
    by (simp add: empty_world_def sanitize_TOK body_of_def env_fourth_def user_agents_def)
qed

text \<open>
  C5 as the specification states it fails when an attempt yields status 200 and an
  exception follows inside the same \<open>try\<close>: here every attempt yields 200 and the file
  cannot be opened for writing, and the fetcher returns failure after four requests.
\<close>

theorem download_file_open_fails:
  "status_200 (net env_open_fails 0 (make_request ''http://h/logo.png'' (user_agents ! 0))) \<and>
   status_200 (net env_open_fails 1 (make_request ''http://h/logo.png'' (user_agents ! 1))) \<and>
   status_200 (net env_open_fails 2 (make_request ''http://h/logo.png'' (user_agents ! 2))) \<and>
   status_200 (net env_open_fails 3 (make_request ''http://h/logo.png'' (user_agents ! 3))) \<and>
   download_file env_open_fails ''http://h/logo.png'' ''TOK'' empty_world =
     Inr (False, \<lparr>files = Map.empty,
                  sent = map (make_request ''http://h/logo.png'') user_agents,
                  calls = [(''http://h/logo.png'', ''TOK'')]\<rparr>)"
proof -
  have "download_file env_open_fails ''http://h/logo.png'' ''TOK'' empty_world =
     Inr (False, \<lparr>files = Map.empty,
                  sent = map (make_request ''http://h/logo.png'') user_agents,
                  calls = [(''http://h/logo.png'', ''TOK'')]\<rparr>)"
    by (simp add: download_file_def path_exists_def ext_logo sanitize_TOK empty_world_def user_agents_def
        attempt_def env_open_fails_def Let_def)
  then show ?thesis
    by (simp add: status_200_def env_open_fails_def)
qed

section \<open>A failed fetch can leave a file behind\<close>

text \<open>
  C1 does not hold of the code. The destination is opened for writing, which creates it,
  before the body is read. When every attempt answers 200 and the read raises, the
  fetcher returns failure and leaves an empty file that was not there before; the next
  call for the same record finds the file and reports success without any request.
\<close>

theorem download_file_leaves_empty_file:
  "files empty_world ''TOK.png'' = None \<and>
   download_file env_read_fails ''http://h/logo.png'' ''TOK'' empty_world =
     Inr (False, \<lparr>files = [''TOK.png'' \<mapsto> []],
                  sent = map (make_request ''http://h/logo.png'') user_agents,
                  calls = [(''http://h/logo.png'', ''TOK'')]\<rparr>) \<and>
   download_file env_fourth ''http://h/logo.png'' ''TOK''
       \<lparr>files = [''TOK.png'' \<mapsto> []],
        sent = map (make_request ''http://h/logo.png'') user_agents,
        calls = [(''http://h/logo.png'', ''TOK'')]\<rparr> =
     Inr (True, \<lparr>files = [''TOK.png'' \<mapsto> []],
                 sent = map (make_request ''http://h/logo.png'') user_agents,
                 calls = [(''http://h/logo.png'', ''TOK''), (''http://h/logo.png'', ''TOK'')]\<rparr>)"
proof (intro conjI)
  show "files empty_world ''TOK.png'' = None"
    by (simp add: empty_world_def)
  show "download_file env_read_fails ''http://h/logo.png'' ''TOK'' empty_world =
     Inr (False, \<lparr>files = [''TOK.png'' \<mapsto> []],
                  sent = map (make_request ''http://h/logo.png'') user_agents,
                  calls = [(''http://h/logo.png'', ''TOK'')]\<rparr>)"
    by (simp add: download_file_def path_exists_def ext_logo sanitize_TOK empty_world_def user_agents_def
        attempt_def env_read_fails_def Let_def)
  show "download_file env_fourth ''http://h/logo.png'' ''TOK''
       \<lparr>files = [''TOK.png'' \<mapsto> []],
        sent = map (make_request ''http://h/logo.png'') user_agents,
        calls = [(''http://h/logo.png'', ''TOK'')]\<rparr> =
     Inr (True, \<lparr>files = [''TOK.png'' \<mapsto> []],
                 sent = map (make_request ''http://h/logo.png'') user_agents,
                 calls = [(''http://h/logo.png'', ''TOK''), (''http://h/logo.png'', ''TOK'')]\<rparr>)"
    by (simp add: download_file_def path_exists_def ext_logo env_fourth_def sanitize_TOK Let_def)
qed

section \<open>The fetcher on an empty URL\<close>

text \<open>
  C10. Called with an empty URL, the fetcher returns false at once: no file changes and
  no request is sent. The caller's bookkeeping counts a false result as failed and leaves
  the skipped counter alone; a record with an empty URL is counted as skipped by the
  guard of the orchestrator, which does not call the fetcher.
\<close>

theorem download_file_empty_url:
  "download_file E [] filename w = Inr (False, w\<lparr>calls := calls w @ [([], filename)]\<rparr>) \<and>
   files (w\<lparr>calls := calls w @ [([], filename)]\<rparr>) = files w \<and>
   sent (w\<lparr>calls := calls w @ [([], filename)]\<rparr>) = sent w \<and>
   count_fetch False c = c\<lparr>failed := failed c + 1\<rparr> \<and>
   skipped (count_fetch False c) = skipped c \<and>
   downloaded (count_fetch False c) = downloaded c \<and>
   main_step E \<lparr>symbol = filename, logoUrl = Some []\<rparr> (c, w) =
     Inr (c\<lparr>skipped := skipped c + 1\<rparr>, w)"
  by (simp add: download_file_def count_fetch_def main_step_def)

section \<open>Facts about the fetcher and the loop over the records\<close>

lemma download_file_shape:
  assumes "download_file E url filename w = Inr (ok, w')"
  shows "\<exists>k F. w' = w\<lparr>calls := calls w @ [(url, filename)],
                        sent := sent w @ map (make_request url) (take k user_agents),
                        files := F\<rparr> \<and>
               (\<forall>fp b. files w fp = Some b \<longrightarrow> F fp = Some b) \<and>
               (0 < k \<longrightarrow> url \<noteq> [] \<and>
                  (\<exists>ext. get_extension_from_url (ip6 E) url = Inr ext \<and>
                         files w (sanitize_filename filename @ ext) = None)) \<and>
               (ok \<longrightarrow> url \<noteq> [] \<and>
                  (\<exists>ext. get_extension_from_url (ip6 E) url = Inr ext \<and>
                         F (sanitize_filename filename @ ext) \<noteq> None))"
proof (cases "url = []")
  case True
  with assms have "w' = w\<lparr>calls := calls w @ [(url, filename)]\<rparr>" and "\<not> ok"
    by (auto simp: download_file_def)
  then show ?thesis
    by (intro exI [where x = 0] exI [where x = "files w"]) simp
next
  case False
  with assms obtain ext where ext: "get_extension_from_url (ip6 E) url = Inr ext"
    by (cases "get_extension_from_url (ip6 E) url") (auto simp: download_file_def)
  let ?fp = "sanitize_filename filename @ ext"
  let ?w = "w\<lparr>calls := calls w @ [(url, filename)]\<rparr>"
  show ?thesis
  proof (cases "files w ?fp")
    case (Some b)
    with assms False ext have "w' = ?w" and ok
      by (auto simp: download_file_def path_exists_def Let_def)
    then show ?thesis using False ext Some
      by (intro exI [where x = 0] exI [where x = "files w"]) simp
  next
    case None
    with assms False ext have t: "try_agents E url ?fp user_agents ?w = (ok, w')"
      by (simp add: download_file_def path_exists_def Let_def split: if_splits)
    from try_agents_shape [of user_agents E url ?fp ?w] obtain k F
      where s: "snd (try_agents E url ?fp user_agents ?w) =
                  ?w\<lparr>sent := sent ?w @ map (make_request url) (take k user_agents), files := F\<rparr>"
        and off: "\<forall>fp'. fp' \<noteq> ?fp \<longrightarrow> F fp' = files ?w fp'"
        and on: "fst (try_agents E url ?fp user_agents ?w) \<longrightarrow> F ?fp \<noteq> None"
      by blast
    have keep: "\<forall>fp b. files w fp = Some b \<longrightarrow> F fp = Some b"
    proof (intro allI impI)
      fix fp b assume f: "files w fp = Some b"
      with None have "fp \<noteq> ?fp" by auto
      with off have "F fp = files ?w fp" by blast
      with f show "F fp = Some b" by simp
    qed
    from s t have w': "w' = w\<lparr>calls := calls w @ [(url, filename)],
                        sent := sent w @ map (make_request url) (take k user_agents),
                        files := F\<rparr>"
      by simp
    from t on have ok: "ok \<longrightarrow> F ?fp \<noteq> None"
      by simp
    show ?thesis
    proof (intro exI [where x = k] exI [where x = F] conjI)
      show "w' = w\<lparr>calls := calls w @ [(url, filename)],
                        sent := sent w @ map (make_request url) (take k user_agents),
                        files := F\<rparr>"
        by (rule w')
      show "\<forall>fp b. files w fp = Some b \<longrightarrow> F fp = Some b"
        by (rule keep)
      show "0 < k \<longrightarrow> url \<noteq> [] \<and>
                  (\<exists>ext. get_extension_from_url (ip6 E) url = Inr ext \<and>
                         files w (sanitize_filename filename @ ext) = None)"
        using False ext None by blast
      show "ok \<longrightarrow> url \<noteq> [] \<and>
                  (\<exists>ext. get_extension_from_url (ip6 E) url = Inr ext \<and>
                         F (sanitize_filename filename @ ext) \<noteq> None)"
        using False ext ok by blast
    qed
  qed
qed


lemma main_loop_append:
  "main_loop E (xs @ ys) st =
     (case main_loop E xs st of Inl e \<Rightarrow> Inl e | Inr st' \<Rightarrow> main_loop E ys st')"
  by (induction xs arbitrary: st) (auto split: sum.splits)

lemma main_step_skip:
  assumes "logoUrl tok = None \<or> logoUrl tok = Some []"
  shows "main_step E tok (c, w) = Inr (c\<lparr>skipped := skipped c + 1\<rparr>, w)"
  using assms by (auto simp: main_step_def)

lemma main_step_fetch:
  assumes "logoUrl tok = Some url" "url \<noteq> []"
  shows "main_step E tok (c, w) =
     (case download_file E url (symbol tok) w of
        Inl e \<Rightarrow> Inl e
      | Inr (ok, w') \<Rightarrow> Inr (count_fetch ok c, w'))"
  using assms by (simp add: main_step_def)

lemma main_step_counts:
  assumes "main_step E tok (c, w) = Inr (c', w')"
  shows "c' = c\<lparr>downloaded := downloaded c + 1\<rparr> \<or>
         c' = c\<lparr>skipped := skipped c + 1\<rparr> \<or>
         c' = c\<lparr>failed := failed c + 1\<rparr>"
  using assms
  by (auto simp: main_step_def count_fetch_def Let_def split: option.splits if_splits sum.splits)

lemma main_loop_counts:
  "main_loop E toks (c, w) = Inr (c', w') \<Longrightarrow>
   downloaded c' + skipped c' + failed c' =
     downloaded c + skipped c + failed c + int (length toks) \<and>
   downloaded c \<le> downloaded c' \<and> skipped c \<le> skipped c' \<and> failed c \<le> failed c'"
proof (induction toks arbitrary: c w)
  case Nil
  then show ?case by simp
next
  case (Cons tok rest)
  from Cons.prems obtain c1 w1 where s: "main_step E tok (c, w) = Inr (c1, w1)"
    and l: "main_loop E rest (c1, w1) = Inr (c', w')"
    by (cases "main_step E tok (c, w)") auto
  from main_step_counts [OF s] have
    "downloaded c1 + skipped c1 + failed c1 = downloaded c + skipped c + failed c + 1 \<and>
     downloaded c \<le> downloaded c1 \<and> skipped c \<le> skipped c1 \<and> failed c \<le> failed c1"
    by auto
  with Cons.IH [OF l] show ?case by simp
qed

lemma main_loop_prefix:
  assumes "main_loop E toks st = Inr st'" "m \<le> length toks"
  shows "\<exists>sm. main_loop E (take m toks) st = Inr sm \<and> main_loop E (drop m toks) sm = Inr st'"
proof -
  have "main_loop E (take m toks @ drop m toks) st = Inr st'" using assms(1) by simp
  then show ?thesis
    unfolding main_loop_append by (cases "main_loop E (take m toks) st") auto
qed



lemma main_step_trace:
  assumes "main_step E tok (c, w) = Inr (c1, w1)"
  shows "(has_logo tok \<longrightarrow>
            calls w1 = calls w @ [(case logoUrl tok of None \<Rightarrow> [] | Some u \<Rightarrow> u, symbol tok)] \<and>
            skipped c1 = skipped c) \<and>
         (\<not> has_logo tok \<longrightarrow> calls w1 = calls w \<and> skipped c1 = skipped c + 1)"
proof (cases "logoUrl tok = None \<or> logoUrl tok = Some []")
  case True
  then have "\<not> has_logo tok" by (auto simp: has_logo_def)
  moreover from assms main_step_skip [OF True, of E c w]
  have "w1 = w" "c1 = c\<lparr>skipped := skipped c + 1\<rparr>" by simp_all
  ultimately show ?thesis by simp
next
  case False
  then obtain url where u: "logoUrl tok = Some url" "url \<noteq> []" by auto
  then have h: "has_logo tok" by (simp add: has_logo_def)
  from assms obtain ok where d: "download_file E url (symbol tok) w = Inr (ok, w1)"
    and c1: "c1 = count_fetch ok c"
    unfolding main_step_fetch [OF u]
    by (cases "download_file E url (symbol tok) w") auto
  from download_file_shape [OF d] obtain k F
    where "w1 = w\<lparr>calls := calls w @ [(url, symbol tok)],
                        sent := sent w @ map (make_request url) (take k user_agents),
                        files := F\<rparr>"
    by blast
  then have "calls w1 = calls w @ [(url, symbol tok)]" by simp
  moreover have "skipped c1 = skipped c" using c1 by (simp add: count_fetch_def)
  ultimately show ?thesis using h u by simp
qed

lemma main_loop_trace:
  "main_loop E toks (c, w) = Inr (c', w') \<Longrightarrow>
   skipped c' = skipped c + int (length (filter (\<lambda>t. \<not> has_logo t) toks)) \<and>
   calls w' = calls w @
     map (\<lambda>t. (case logoUrl t of None \<Rightarrow> [] | Some u \<Rightarrow> u, symbol t)) (filter has_logo toks)"
proof (induction toks arbitrary: c w)
  case Nil
  then show ?case by simp
next
  case (Cons tok rest)
  from Cons.prems obtain c1 w1 where s: "main_step E tok (c, w) = Inr (c1, w1)"
    and l: "main_loop E rest (c1, w1) = Inr (c', w')"
    by (cases "main_step E tok (c, w)") auto
  from main_step_trace [OF s] Cons.IH [OF l] show ?case
    by (cases "has_logo tok") simp_all
qed

text \<open>Sample runs, evaluated.\<close>

lemma ext_good: "get_extension_from_url ip6_none ''http://good/a.png'' = Inr ''.png''"
  by code_simp

lemma ext_bad: "get_extension_from_url ip6_none ''http://bad/c.png'' = Inr ''.png''"
  by code_simp

lemma ext_bracket: "get_extension_from_url ip6_none ''http://['' = Inl ValueError"
  by code_simp

lemma sanitize_AAA: "sanitize_filename ''AAA'' = ''AAA''"
  by code_simp

lemma sanitize_CCC: "sanitize_filename ''CCC'' = ''CCC''"
  by code_simp

lemma loop_three_records:
  "process_records (env_good_bad body) three_records empty_world =
     Inr (\<lparr>downloaded = 1, skipped = 1, failed = 1\<rparr>,
          \<lparr>files = [''AAA.png'' \<mapsto> body],
           sent = make_request ''http://good/a.png'' (user_agents ! 0) #
                  map (make_request ''http://bad/c.png'') user_agents,
           calls = [(''http://good/a.png'', ''AAA''), (''http://bad/c.png'', ''CCC'')]\<rparr>)"
  by (simp add: process_records_def three_records_def main_step_def download_file_def
      path_exists_def count_fetch_def
      ext_good ext_bad sanitize_AAA sanitize_CCC empty_world_def user_agents_def attempt_def
      env_good_bad_def make_request_def Let_def)

lemma run_three_records:
  "main (env_good_bad body) three_records empty_world =
     Inr (\<lparr>downloaded = 1, skipped = 1, failed = 1\<rparr>,
          \<lparr>files = [''AAA.png'' \<mapsto> body],
           sent = make_request ''http://good/a.png'' (user_agents ! 0) #
                  map (make_request ''http://bad/c.png'') user_agents,
           calls = [(''http://good/a.png'', ''AAA''), (''http://bad/c.png'', ''CCC'')]\<rparr>)"
  by (simp add: main_def process_records_def three_records_def main_step_def download_file_def
      path_exists_def count_fetch_def
      ext_good ext_bad sanitize_AAA sanitize_CCC empty_world_def user_agents_def attempt_def
      env_good_bad_def make_request_def Let_def)



section \<open>An existing destination is never fetched again\<close>



section \<open>Records without a logo URL are skipped\<close>

text \<open>
  C6. For every record whose \<open>logoUrl\<close> is absent or empty, wherever it stands in the
  input, the orchestrator adds one to the skipped counter and does not call the fetcher:
  the files, the requests sent and the trace of fetcher calls are as before. When the loop
  over the records ends, the skipped counter is the number of such records and the
  fetcher was called for the other records only, in their order.
\<close>

theorem main_skips_without_url:
  assumes "logoUrl tok = None \<or> logoUrl tok = Some []"
  shows "main_step E tok (c, w) = Inr (c\<lparr>skipped := skipped c + 1\<rparr>, w) \<and>
         main_loop E (pre @ tok # post) st =
           (case main_loop E pre st of
              Inl e \<Rightarrow> Inl e
            | Inr (c1, w1) \<Rightarrow> main_loop E post (c1\<lparr>skipped := skipped c1 + 1\<rparr>, w1)) \<and>
         (\<forall>c' w'. process_records E (pre @ tok # post) w = Inr (c', w') \<longrightarrow>
            skipped c' = int (length (filter (\<lambda>t. \<not> has_logo t) (pre @ tok # post))) \<and>
            calls w' = calls w @
              map (\<lambda>t. (case logoUrl t of None \<Rightarrow> [] | Some u \<Rightarrow> u, symbol t))
                (filter has_logo (pre @ post)))"
proof (intro conjI allI impI)
  have no: "\<not> has_logo tok" using assms by (auto simp: has_logo_def)
  show "main_step E tok (c, w) = Inr (c\<lparr>skipped := skipped c + 1\<rparr>, w)"
    using assms by (rule main_step_skip)
  show "main_loop E (pre @ tok # post) st =
           (case main_loop E pre st of
              Inl e \<Rightarrow> Inl e
            | Inr (c1, w1) \<Rightarrow> main_loop E post (c1\<lparr>skipped := skipped c1 + 1\<rparr>, w1))"
    by (cases "main_loop E pre st")
       (auto simp: main_loop_append main_step_skip [OF assms])
  fix c' w' assume "process_records E (pre @ tok # post) w = Inr (c', w')"
  then have "main_loop E (pre @ tok # post) (\<lparr>downloaded = 0, skipped = 0, failed = 0\<rparr>, w) =
      Inr (c', w')" by (simp add: process_records_def)
  from main_loop_trace [OF this] no
  show "skipped c' = int (length (filter (\<lambda>t. \<not> has_logo t) (pre @ tok # post)))"
    and "calls w' = calls w @
              map (\<lambda>t. (case logoUrl t of None \<Rightarrow> [] | Some u \<Rightarrow> u, symbol t))
                (filter has_logo (pre @ post))"
    by simp_all
qed

theorem main_skips_without_url_witness:
  "main_step env_fourth \<lparr>symbol = ''BBB'', logoUrl = Some ''''\<rparr>
     (\<lparr>downloaded = 0, skipped = 0, failed = 0\<rparr>, empty_world) =
   Inr (\<lparr>downloaded = 0, skipped = 1, failed = 0\<rparr>, empty_world)"
proof -
  have h: "logoUrl \<lparr>symbol = ''BBB'', logoUrl = Some ''''\<rparr> = None \<or>
           logoUrl \<lparr>symbol = ''BBB'', logoUrl = Some ''''\<rparr> = Some []"
    by simp
  from main_skips_without_url [OF h, THEN conjunct1,
      of env_fourth "\<lparr>downloaded = 0, skipped = 0, failed = 0\<rparr>" empty_world]
  show ?thesis by simp
qed

section \<open>The run of the three records\<close>

text \<open>
  C7. On the three records AAA (\<open>http://good/a.png\<close>), BBB (empty URL) and CCC
  (\<open>http://bad/c.png\<close>), with a server that answers 200 and a body for the good URL and
  404 for any other, a directory that is empty, writable and listable, the run ends with
  downloaded = 1, skipped = 1, failed = 1 and the directory holds exactly the file
  \<open>AAA.png\<close>, with that body.
\<close>

theorem main_three_records:
  "main (env_good_bad body) three_records empty_world =
     Inr (\<lparr>downloaded = 1, skipped = 1, failed = 1\<rparr>,
          \<lparr>files = [''AAA.png'' \<mapsto> body],
           sent = make_request ''http://good/a.png'' (user_agents ! 0) #
                  map (make_request ''http://bad/c.png'') user_agents,
           calls = [(''http://good/a.png'', ''AAA''), (''http://bad/c.png'', ''CCC'')]\<rparr>) \<and>
   dom (files (snd (projr (main (env_good_bad body) three_records empty_world)))) =
     {''AAA.png''}"
  unfolding run_three_records by simp

section \<open>Exceptions outside the attempts end the run\<close>

text \<open>
  C8 does not hold of the code. The handlers of lines 83 to 96 cover the attempts of the
  loop over the user agents. The extension of the URL is resolved at line 43 and the
  destination is tested at line 48, both before the \<open>try\<close> of line 63. So a logo URL that
  \<open>urlparse\<close> rejects ends the run with \<open>ValueError\<close>, and a symbol that makes the file
  name longer than the file system allows ends it with \<open>OSError\<close>, whatever the network
  answers; in both runs the record that follows is never processed and no summary is
  reached.
\<close>

theorem main_aborts_outside_try:
  "main env_fourth
     [\<lparr>symbol = ''BAD'', logoUrl = Some ''http://[''\<rparr>,
      \<lparr>symbol = ''AAA'', logoUrl = Some ''http://good/a.png''\<rparr>] empty_world =
   Inl ValueError \<and>
   main env_name_max
     [\<lparr>symbol = replicate 252 (CHR ''A''), logoUrl = Some ''http://good/a.png''\<rparr>,
      \<lparr>symbol = ''AAA'', logoUrl = Some ''http://good/a.png''\<rparr>] empty_world =
   Inl OSError"
proof
  show "main env_fourth
     [\<lparr>symbol = ''BAD'', logoUrl = Some ''http://[''\<rparr>,
      \<lparr>symbol = ''AAA'', logoUrl = Some ''http://good/a.png''\<rparr>] empty_world =
   Inl ValueError"
    by (simp add: main_def process_records_def main_step_def download_file_def env_fourth_def
        ext_bracket)
  have name: "sanitize_filename (replicate 252 (CHR ''A'')) = replicate 252 (CHR ''A'')"
    by (simp add: sanitize_filename_def safe_char_def in_range_def ord_def)
  show "main env_name_max
     [\<lparr>symbol = replicate 252 (CHR ''A''), logoUrl = Some ''http://good/a.png''\<rparr>,
      \<lparr>symbol = ''AAA'', logoUrl = Some ''http://good/a.png''\<rparr>] empty_world =
   Inl OSError"
    by (simp add: main_def process_records_def main_step_def download_file_def path_exists_def
        env_name_max_def ext_good name empty_world_def)
qed

section \<open>The three counters\<close>

text \<open>
  C9. Each round of the orchestrator's loop adds one to exactly one of the counters
  downloaded, skipped and failed. So after any prefix of \<open>n\<close> records that the loop has
  processed the three add up to \<open>n\<close>, none is negative, and none ever decreases during
  the run.
\<close>

theorem process_records_counter_invariant:
  assumes run: "process_records E (take n token_list) w = Inr (c, w')" and n: "n \<le> length token_list"
  shows "downloaded c + skipped c + failed c = int n \<and>
    0 \<le> downloaded c \<and> 0 \<le> skipped c \<and> 0 \<le> failed c \<and>
    (\<forall>m<n. \<exists>cm wm c1 w1.
       process_records E (take m token_list) w = Inr (cm, wm) \<and>
       process_records E (take (Suc m) token_list) w = Inr (c1, w1) \<and>
       (c1 = cm\<lparr>downloaded := downloaded cm + 1\<rparr> \<or>
        c1 = cm\<lparr>skipped := skipped cm + 1\<rparr> \<or>
        c1 = cm\<lparr>failed := failed cm + 1\<rparr>) \<and>
       downloaded c1 \<le> downloaded c \<and> skipped c1 \<le> skipped c \<and> failed c1 \<le> failed c)"
proof -
  let ?z = "\<lparr>downloaded = 0, skipped = 0, failed = 0\<rparr>"
  let ?ts = "take n token_list"
  have len: "length ?ts = n" using n by simp
  have loop: "main_loop E ?ts (?z, w) = Inr (c, w')" using run by (simp add: process_records_def)
  from main_loop_counts [OF loop] len
  have sum: "downloaded c + skipped c + failed c = int n"
    and nonneg: "0 \<le> downloaded c" "0 \<le> skipped c" "0 \<le> failed c"
    by simp_all
  have step: "\<exists>cm wm c1 w1.
       process_records E (take m token_list) w = Inr (cm, wm) \<and>
       process_records E (take (Suc m) token_list) w = Inr (c1, w1) \<and>
       (c1 = cm\<lparr>downloaded := downloaded cm + 1\<rparr> \<or>
        c1 = cm\<lparr>skipped := skipped cm + 1\<rparr> \<or>
        c1 = cm\<lparr>failed := failed cm + 1\<rparr>) \<and>
       downloaded c1 \<le> downloaded c \<and> skipped c1 \<le> skipped c \<and> failed c1 \<le> failed c"
    if m: "m < n" for m
  proof -
    have tm: "take m ?ts = take m token_list" and ts: "take (Suc m) ?ts = take (Suc m) token_list"
      using m by (simp_all add: min_def)
    have le_len: "Suc m \<le> length ?ts" using m len by simp
    from main_loop_prefix [OF loop le_len] obtain s1
      where p1: "main_loop E (take (Suc m) ?ts) (?z, w) = Inr s1"
        and r1: "main_loop E (drop (Suc m) ?ts) s1 = Inr (c, w')"
      by blast
    obtain c1 w1 where s1: "s1 = (c1, w1)" by (cases s1)
    have "take (Suc m) ?ts = take m ?ts @ [?ts ! m]"
      using m len by (simp add: take_Suc_conv_app_nth)
    with p1 obtain sm where pm: "main_loop E (take m ?ts) (?z, w) = Inr sm"
      and st: "main_loop E [?ts ! m] sm = Inr s1"
      by (cases "main_loop E (take m ?ts) (?z, w)") (auto simp: main_loop_append)
    obtain cm wm where sm: "sm = (cm, wm)" by (cases sm)
    from st sm s1 have "main_step E (?ts ! m) (cm, wm) = Inr (c1, w1)"
      by (cases "main_step E (?ts ! m) (cm, wm)") auto
    from main_step_counts [OF this]
    have one: "c1 = cm\<lparr>downloaded := downloaded cm + 1\<rparr> \<or>
        c1 = cm\<lparr>skipped := skipped cm + 1\<rparr> \<or>
        c1 = cm\<lparr>failed := failed cm + 1\<rparr>" .
    from main_loop_counts [OF r1 [unfolded s1]]
    have le: "downloaded c1 \<le> downloaded c \<and> skipped c1 \<le> skipped c \<and> failed c1 \<le> failed c"
      by simp
    have "process_records E (take m token_list) w = Inr (cm, wm)"
      using pm sm tm by (simp add: process_records_def)
    moreover have "process_records E (take (Suc m) token_list) w = Inr (c1, w1)"
      using p1 s1 ts by (simp add: process_records_def)
    ultimately show ?thesis using one le by blast
  qed
  from sum nonneg step show ?thesis by blast
qed

theorem process_records_counter_invariant_witness:
  "process_records (env_good_bad ''x'') (take 3 three_records) empty_world =
     Inr (\<lparr>downloaded = 1, skipped = 1, failed = 1\<rparr>,
          \<lparr>files = [''AAA.png'' \<mapsto> ''x''],
           sent = make_request ''http://good/a.png'' (user_agents ! 0) #
                  map (make_request ''http://bad/c.png'') user_agents,
           calls = [(''http://good/a.png'', ''AAA''), (''http://bad/c.png'', ''CCC'')]\<rparr>) \<and>
   3 \<le> length three_records \<and>
   downloaded \<lparr>downloaded = 1, skipped = 1, failed = 1\<rparr> +
   skipped \<lparr>downloaded = 1, skipped = 1, failed = 1\<rparr> +
   failed \<lparr>downloaded = 1, skipped = 1, failed = 1\<rparr> = int 3"
proof -
  have t: "take 3 three_records = three_records"
    by (simp add: three_records_def)
  have run: "process_records (env_good_bad ''x'') (take 3 three_records) empty_world =
     Inr (\<lparr>downloaded = 1, skipped = 1, failed = 1\<rparr>,
          \<lparr>files = [''AAA.png'' \<mapsto> ''x''],
           sent = make_request ''http://good/a.png'' (user_agents ! 0) #
                  map (make_request ''http://bad/c.png'') user_agents,
           calls = [(''http://good/a.png'', ''AAA''), (''http://bad/c.png'', ''CCC'')]\<rparr>)"
    unfolding t by (rule loop_three_records)
  have n: "3 \<le> length three_records"
    by (simp add: three_records_def)
  from process_records_counter_invariant [OF run n, THEN conjunct1] run n show ?thesis
    by (intro conjI)
qed

end
